theory Spec2Isabelle
  imports Complex_Main
begin

section \<open>Python floats\<close>

text \<open>
  A finite Python \<open>float\<close> is an IEEE 754 binary64 number; it is represented here by the
  rational it denotes exactly. Every arithmetic operation of the source is the exact
  operation followed by \<open>to_double\<close>, rounding to the nearest number with a 53-bit
  significand, ties to the even significand. The exponent range is not limited: the
  quotients of the scorer are quotients of list lengths and stay far from it.
\<close>

function bitlen :: "int \<Rightarrow> int" where
  "bitlen n = (if n \<le> 0 then 0 else 1 + bitlen (n div 2))"
  by pat_completeness auto
termination
  by (relation "measure nat") auto

declare bitlen.simps [simp del]

definition round_half_even :: "rat \<Rightarrow> int" where
  "round_half_even x =
     (let f = \<lfloor>x\<rfloor>; d = x - of_int f
      in if d < 1 / 2 then f
         else if 1 / 2 < d then f + 1
         else if even f then f else f + 1)"

definition binade :: "rat \<Rightarrow> int" where
  \<comment> \<open>for \<open>0 < x\<close>: the \<open>e\<close> with \<open>2 powi e \<le> x < 2 powi (e + 1)\<close>\<close>
  "binade x =
     (let (p, q) = quotient_of x;
          k = bitlen p - bitlen q
      in if 2 powi k \<le> x then k else k - 1)"

definition to_double :: "rat \<Rightarrow> rat" where
  "to_double x =
     (if x = 0 then 0
      else let u = 2 powi (binade \<bar>x\<bar> - 52)
           in of_int (round_half_even (x / u)) * u)"

definition truediv :: "nat \<Rightarrow> nat \<Rightarrow> rat" where
  \<comment> \<open>\<open>a / b\<close> on two \<open>int\<close>s (here: two lengths), \<open>b\<close> not zero\<close>
  "truediv a b = to_double (of_nat a / of_nat b)"

definition fmul :: "rat \<Rightarrow> rat \<Rightarrow> rat" where
  "fmul x y = to_double (x * y)"

definition fadd :: "rat \<Rightarrow> rat \<Rightarrow> rat" where
  "fadd x y = to_double (x + y)"

definition py_round :: "rat \<Rightarrow> nat \<Rightarrow> rat" where
  \<comment> \<open>\<open>round(x, ndigits)\<close>: the exact value of \<open>x\<close> is rounded half-even to \<open>ndigits\<close>
      decimals, and that decimal is read back as a float\<close>
  "py_round x ndigits =
     to_double (of_int (round_half_even (x * 10 ^ ndigits)) / 10 ^ ndigits)"


section \<open>Hypothesis scoring (analytics.py)\<close>

text \<open>
  An entry of the hypothesis library. The two signal fields are the JSON lists the source
  reads with \<open>hypothesis.get(key, [])\<close>: a missing key is the empty list.
\<close>

record hypothesis =
  hid :: string
  name :: string
  description :: string
  business_implication :: string
  required_signals :: "string list"
  supporting_signals :: "string list"

text \<open>
  The loop of \<open>InsightEngine.score_hypotheses\<close>; \<open>scored\<close> is the list it appends to.
\<close>

fun score_loop ::
  "hypothesis list \<Rightarrow> string set \<Rightarrow> (hypothesis \<times> rat) list \<Rightarrow> (hypothesis \<times> rat) list"
where
  "score_loop [] signals scored = scored"
| "score_loop (h # hs) signals scored =
     (let required = set (required_signals h);
          supporting = set (supporting_signals h)
      in if required = {} then score_loop hs signals scored
         else
           let required_score = truediv (card (required \<inter> signals)) (card required);
               supporting_score =
                 (if supporting \<noteq> {}
                  then truediv (card (supporting \<inter> signals)) (card supporting)
                  else 0);
               score = fadd (fmul (to_double (7 / 10)) required_score)
                            (fmul (to_double (3 / 10)) supporting_score)
           in score_loop hs signals (scored @ [(h, py_round score 3)]))"

text \<open>
  \<open>scored.sort(key=lambda x: x[1], reverse=True)\<close> is a stable sort by descending score:
  entries of equal score keep their order.
\<close>

definition score_hypotheses :: "hypothesis list \<Rightarrow> string set \<Rightarrow> (hypothesis \<times> rat) list" where
  "score_hypotheses hypotheses signals =
     sort_key (\<lambda>x. - snd x) (score_loop hypotheses signals [])"

text \<open>The hypothesis of the scoring scenario: two required signals, one supporting.\<close>

definition scenario_hypothesis :: hypothesis where
  "scenario_hypothesis =
     \<lparr>hid = ''H1'', name = ''scenario'', description = '''', business_implication = '''',
      required_signals = [''A'', ''B''], supporting_signals = [''C'']\<rparr>"


text \<open>
  The confidence as the specification words it: 0.7 times the matched share of the
  required signals plus 0.3 times the matched share of the supporting signals (0 when
  there are none), rounded to 3 decimals, each operation being the float operation.
\<close>

definition spec_confidence :: "hypothesis \<Rightarrow> string set \<Rightarrow> rat" where
  "spec_confidence h signals =
     py_round
       (fadd
         (fmul (to_double (7 / 10))
           (truediv (card (set (required_signals h) \<inter> signals))
                    (card (set (required_signals h)))))
         (fmul (to_double (3 / 10))
           (if set (supporting_signals h) = {} then 0
            else truediv (card (set (supporting_signals h) \<inter> signals))
                         (card (set (supporting_signals h))))))
       3"


section \<open>Properties of the float operations\<close>

lemma round_half_even_of_int: "round_half_even (of_int n) = n"
  by (simp add: round_half_even_def)

lemma round_half_even_bounds:
  "\<lfloor>x\<rfloor> \<le> round_half_even x \<and> round_half_even x \<le> \<lfloor>x\<rfloor> + 1"
  by (simp add: round_half_even_def Let_def)

lemma round_half_even_mono:
  assumes "x \<le> y"
  shows "round_half_even x \<le> round_half_even y"
proof (cases "\<lfloor>x\<rfloor> = \<lfloor>y\<rfloor>")
  case True
  with assms show ?thesis by (auto simp: round_half_even_def Let_def)
next
  case False
  with assms have "\<lfloor>x\<rfloor> < \<lfloor>y\<rfloor>" by (simp add: floor_mono order.strict_iff_order)
  then have "\<lfloor>x\<rfloor> + 1 \<le> \<lfloor>y\<rfloor>" by simp
  with round_half_even_bounds [of x] round_half_even_bounds [of y] show ?thesis by linarith
qed

lemma bitlen_bounds:
  "0 < n \<Longrightarrow> 0 < bitlen n \<and> 2 ^ nat (bitlen n - 1) \<le> n \<and> n < 2 ^ nat (bitlen n)"
proof (induction n rule: bitlen.induct)
  case (1 n)
  show ?case
  proof (cases "n = 1")
    case True
    have "bitlen 1 = 1" by (simp add: bitlen.simps [of 1] bitlen.simps [of 0])
    with True show ?thesis by simp
  next
    case False
    with "1.prems" have h: "0 < n div 2" by simp
    from "1.prems" have "\<not> n \<le> 0" by simp
    from "1.IH" [OF this h] have ih: "0 < bitlen (n div 2)"
      "2 ^ nat (bitlen (n div 2) - 1) \<le> n div 2" "n div 2 < 2 ^ nat (bitlen (n div 2))"
      by simp_all
    have eq: "bitlen n = 1 + bitlen (n div 2)"
      using "1.prems" by (simp add: bitlen.simps [of n])
    have e1: "nat (bitlen n - 1) = Suc (nat (bitlen (n div 2) - 1))" using eq ih(1) by simp
    have e2: "nat (bitlen n) = Suc (nat (bitlen (n div 2)))" using eq ih(1) by simp
    have "2 * 2 ^ nat (bitlen (n div 2) - 1) \<le> n" using ih(2) by linarith
    moreover have "n < 2 * 2 ^ nat (bitlen (n div 2))" using ih(3) by linarith
    ultimately show ?thesis using eq ih(1) e1 e2 by simp
  qed
qed

lemma binade_bounds:
  assumes "0 < x"
  shows "2 powi (binade x) \<le> x \<and> x < 2 powi (binade x + 1)"
proof -
  obtain p q where pq: "quotient_of x = (p, q)" by (cases "quotient_of x")
  then have q: "0 < q" by (rule quotient_of_denom_pos)
  from pq have x: "x = of_int p / of_int q" by (rule quotient_of_div)
  with assms q have p: "0 < p" by (simp add: zero_less_divide_iff)
  define a where "a = bitlen p"
  define b where "b = bitlen q"
  from bitlen_bounds [OF p] have a: "0 < a" "2 ^ nat (a - 1) \<le> p" "p < 2 ^ nat a"
    by (simp_all add: a_def)
  from bitlen_bounds [OF q] have b: "0 < b" "2 ^ nat (b - 1) \<le> q" "q < 2 ^ nat b"
    by (simp_all add: b_def)
  have pa: "(2::rat) powi a = 2 ^ nat a" "(2::rat) powi (a - 1) = 2 ^ nat (a - 1)"
    using a(1) by (simp_all add: power_int_def)
  have pb: "(2::rat) powi b = 2 ^ nat b" "(2::rat) powi (b - 1) = 2 ^ nat (b - 1)"
    using b(1) by (simp_all add: power_int_def)
  have rp: "(2::rat) powi (a - 1) \<le> of_int p" "of_int p < (2::rat) powi a"
    unfolding pa using a(2,3)
    by (metis of_int_le_iff of_int_numeral of_int_power,
        metis of_int_less_iff of_int_numeral of_int_power)
  have rq: "(2::rat) powi (b - 1) \<le> of_int q" "of_int q < (2::rat) powi b"
    unfolding pb using b(2,3)
    by (metis of_int_le_iff of_int_numeral of_int_power,
        metis of_int_less_iff of_int_numeral of_int_power)
  have qpos: "(0::rat) < of_int q" using q by simp
  have up: "x < 2 powi (a - b + 1)"
  proof -
    have "x * of_int q = of_int p" using x qpos by simp
    also have "\<dots> < 2 powi a" by (rule rp(2))
    also have "\<dots> = 2 powi (a - b + 1) * 2 powi (b - 1)"
      by (simp flip: power_int_add)
    also have "\<dots> \<le> 2 powi (a - b + 1) * of_int q"
      by (rule mult_left_mono [OF rq(1)]) simp
    finally show ?thesis using qpos by simp
  qed
  have lo: "2 powi (a - b - 1) < x"
  proof -
    have "(2::rat) powi (a - b - 1) * of_int q < 2 powi (a - b - 1) * 2 powi b"
      by (rule mult_strict_left_mono [OF rq(2)]) simp
    also have "\<dots> = 2 powi (a - 1)" by (simp flip: power_int_add)
    also have "\<dots> \<le> of_int p" by (rule rp(1))
    also have "\<dots> = x * of_int q" using x qpos by simp
    finally show ?thesis using qpos by simp
  qed
  show ?thesis
  proof (cases "2 powi (a - b) \<le> x")
    case True
    then have "binade x = a - b" by (simp add: binade_def pq a_def b_def)
    with True up show ?thesis by simp
  next
    case False
    then have "binade x = a - b - 1" by (simp add: binade_def pq a_def b_def)
    with False lo show ?thesis by simp
  qed
qed

lemma binade_mono:
  assumes "0 < x" "x \<le> y"
  shows "binade x \<le> binade y"
proof (rule ccontr)
  assume "\<not> binade x \<le> binade y"
  then have "binade y + 1 \<le> binade x" by simp
  then have "(2::rat) powi (binade y + 1) \<le> 2 powi (binade x)"
    by (rule power_int_increasing) simp
  moreover from assms have "0 < y" by simp
  ultimately show False
    using binade_bounds [OF assms(1)] binade_bounds [OF \<open>0 < y\<close>] assms(2) by linarith
qed

lemma to_double_bounds:
  assumes "0 < x"
  shows "2 powi (binade x) \<le> to_double x \<and> to_double x \<le> 2 powi (binade x + 1)"
proof -
  define u :: rat where "u = 2 powi (binade x - 52)"
  have u: "0 < u" by (simp add: u_def)
  have td: "to_double x = of_int (round_half_even (x / u)) * u"
    using assms by (simp add: to_double_def u_def Let_def)
  have e1: "2 powi (binade x) = of_int (2 ^ 52) * u"
    unfolding u_def by (simp add: power_int_diff)
  have e2: "2 powi (binade x + 1) = of_int (2 ^ 53) * u"
    unfolding u_def by (simp add: power_int_diff power_int_add)
  from binade_bounds [OF assms] have "of_int (2 ^ 52) * u \<le> x" "x \<le> of_int (2 ^ 53) * u"
    unfolding e1 e2 by simp_all
  then have q: "of_int (2 ^ 52) \<le> x / u" "x / u \<le> of_int (2 ^ 53)"
    using u by (simp_all add: pos_le_divide_eq pos_divide_le_eq)
  have "round_half_even (of_int (2 ^ 52)) \<le> round_half_even (x / u)"
    "round_half_even (x / u) \<le> round_half_even (of_int (2 ^ 53))"
    by (rule round_half_even_mono [OF q(1)], rule round_half_even_mono [OF q(2)])
  then have "(2 ^ 52 :: int) \<le> round_half_even (x / u)"
    "round_half_even (x / u) \<le> (2 ^ 53 :: int)"
    unfolding round_half_even_of_int by simp_all
  then have "(of_int (2 ^ 52) :: rat) \<le> of_int (round_half_even (x / u))"
    "(of_int (round_half_even (x / u)) :: rat) \<le> of_int (2 ^ 53)"
    unfolding of_int_le_iff by simp_all
  then have "of_int (2 ^ 52) * u \<le> to_double x" "to_double x \<le> of_int (2 ^ 53) * u"
    unfolding td using u by (simp_all only: mult_le_cancel_right_pos)
  then show ?thesis unfolding e1 e2 by simp
qed

lemma to_double_zero: "to_double 0 = 0"
  by (simp add: to_double_def)

lemma to_double_nonneg: "0 \<le> x \<Longrightarrow> 0 \<le> to_double x"
proof (cases "x = 0")
  case True
  then show ?thesis by (simp add: to_double_def)
next
  case False
  assume "0 \<le> x"
  with False have "0 < x" by simp
  from to_double_bounds [OF this] have "2 powi (binade x) \<le> to_double x" by simp
  moreover have "(0::rat) < 2 powi (binade x)" by simp
  ultimately show ?thesis by linarith
qed

lemma to_double_mono:
  assumes "0 \<le> x" "x \<le> y"
  shows "to_double x \<le> to_double y"
proof (cases "x = 0")
  case True
  with assms to_double_nonneg [of y] show ?thesis by (simp add: to_double_def)
next
  case False
  with assms have x: "0 < x" and y: "0 < y" by simp_all
  from binade_mono [OF x assms(2)]
  consider "binade x = binade y" | "binade x + 1 \<le> binade y" by linarith
  then show ?thesis
  proof cases
    case 1
    define u :: rat where "u = 2 powi (binade x - 52)"
    have u: "0 < u" by (simp add: u_def)
    have "x / u \<le> y / u" using assms(2) u by (simp add: divide_right_mono)
    then have "round_half_even (x / u) \<le> round_half_even (y / u)"
      by (rule round_half_even_mono)
    then have "(of_int (round_half_even (x / u)) :: rat) * u
        \<le> of_int (round_half_even (y / u)) * u"
      using u by simp
    then show ?thesis using x y 1 by (simp add: to_double_def u_def Let_def)
  next
    case 2
    then have "(2::rat) powi (binade x + 1) \<le> 2 powi (binade y)"
      by (rule power_int_increasing) simp
    with to_double_bounds [OF x] to_double_bounds [OF y] show ?thesis by linarith
  qed
qed


lemma truediv_mono: "0 < b \<Longrightarrow> a \<le> a' \<Longrightarrow> truediv a b \<le> truediv a' b"
  unfolding truediv_def by (rule to_double_mono) (simp_all add: divide_right_mono)

lemma truediv_nonneg: "0 \<le> truediv a b"
  unfolding truediv_def by (rule to_double_nonneg) simp

lemma fmul_mono: "0 \<le> k \<Longrightarrow> 0 \<le> x \<Longrightarrow> x \<le> y \<Longrightarrow> fmul k x \<le> fmul k y"
  unfolding fmul_def by (rule to_double_mono) (simp_all add: mult_left_mono)

lemma fmul_nonneg: "0 \<le> k \<Longrightarrow> 0 \<le> x \<Longrightarrow> 0 \<le> fmul k x"
  unfolding fmul_def by (rule to_double_nonneg) simp

lemma fadd_mono:
  "0 \<le> x \<Longrightarrow> 0 \<le> y \<Longrightarrow> x \<le> x' \<Longrightarrow> y \<le> y' \<Longrightarrow> fadd x y \<le> fadd x' y'"
  unfolding fadd_def by (rule to_double_mono) simp_all

lemma fadd_nonneg: "0 \<le> x \<Longrightarrow> 0 \<le> y \<Longrightarrow> 0 \<le> fadd x y"
  unfolding fadd_def by (rule to_double_nonneg) simp

lemma py_round_mono:
  assumes "0 \<le> x" "x \<le> y"
  shows "py_round x n \<le> py_round y n"
  unfolding py_round_def
proof (rule to_double_mono)
  have "x * 10 ^ n \<le> y * 10 ^ n" using assms(2) by simp
  then have le: "round_half_even (x * 10 ^ n) \<le> round_half_even (y * 10 ^ n)"
    by (rule round_half_even_mono)
  then show "rat_of_int (round_half_even (x * 10 ^ n)) / 10 ^ n
      \<le> rat_of_int (round_half_even (y * 10 ^ n)) / 10 ^ n"
    by (simp add: divide_right_mono)
  have "(0::rat) \<le> x * 10 ^ n" using assms(1) by simp
  then have "round_half_even 0 \<le> round_half_even (x * 10 ^ n)"
    by (rule round_half_even_mono)
  then have "0 \<le> round_half_even (x * 10 ^ n)" by (simp add: round_half_even_def)
  then show "0 \<le> rat_of_int (round_half_even (x * 10 ^ n)) / 10 ^ n" by simp
qed


section \<open>Properties of the scorer\<close>

lemma score_loop_eq:
  "score_loop hs signals scored =
     scored @ map (\<lambda>h. (h, spec_confidence h signals))
                  (filter (\<lambda>h. set (required_signals h) \<noteq> {}) hs)"
  by (induction hs arbitrary: scored) (simp_all add: spec_confidence_def Let_def)

lemma set_score_hypotheses:
  "set (score_hypotheses hs signals) =
     (\<lambda>h. (h, spec_confidence h signals)) ` {h \<in> set hs. set (required_signals h) \<noteq> {}}"
  by (simp add: score_hypotheses_def score_loop_eq)

lemma length_score_hypotheses:
  "length (score_hypotheses hs signals) =
     length (filter (\<lambda>h. set (required_signals h) \<noteq> {}) hs)"
  by (simp add: score_hypotheses_def score_loop_eq)

lemma scenario_value:
  "spec_confidence scenario_hypothesis {''A''} = to_double (35 / 100)"
  by code_simp

lemma scenario_value_more:
  "spec_confidence scenario_hypothesis {''A'', ''B''} = to_double (7 / 10)"
  by code_simp

lemma to_double_035: "to_double (35 / 100) = 3152519739159347 / 9007199254740992"
  by code_simp

lemma to_double_07: "to_double (7 / 10) = 3152519739159347 / 4503599627370496"
  by code_simp

lemma spec_confidence_mono:
  assumes "S \<subseteq> S'" "set (required_signals h) \<noteq> {}"
  shows "spec_confidence h S \<le> spec_confidence h S'"
proof -
  let ?R = "set (required_signals h)" and ?P = "set (supporting_signals h)"
  have k7: "0 \<le> to_double (7 / 10)" and k3: "0 \<le> to_double (3 / 10)"
    by (rule to_double_nonneg, simp)+
  have cr: "card (?R \<inter> S) \<le> card (?R \<inter> S')" and cp: "card (?P \<inter> S) \<le> card (?P \<inter> S')"
    using assms(1) by (auto intro!: card_mono)
  have rpos: "0 < card ?R" using assms(2) by (simp add: card_gt_0_iff)
  have r: "truediv (card (?R \<inter> S)) (card ?R) \<le> truediv (card (?R \<inter> S')) (card ?R)"
    by (rule truediv_mono [OF rpos cr])
  have p: "(if ?P = {} then 0 else truediv (card (?P \<inter> S)) (card ?P))
      \<le> (if ?P = {} then 0 else truediv (card (?P \<inter> S')) (card ?P))"
    using cp by (auto intro!: truediv_mono simp: card_gt_0_iff)
  have p0: "0 \<le> (if ?P = {} then 0 else truediv (card (?P \<inter> S)) (card ?P))"
    by (simp add: truediv_nonneg)
  show ?thesis
    unfolding spec_confidence_def
    by (intro py_round_mono fadd_mono fadd_nonneg fmul_mono fmul_nonneg k7 k3 r p p0
        truediv_nonneg)
qed

lemma spec_confidence_zero:
  assumes "set (required_signals h) \<inter> S = {}" "set (supporting_signals h) \<inter> S = {}"
  shows "spec_confidence h S = 0"
  using assms
  by (simp add: spec_confidence_def truediv_def fmul_def fadd_def py_round_def
      to_double_zero round_half_even_def)

text \<open>
  C1. For every signal set and every hypothesis of the library, \<open>score_hypotheses\<close> has
  an entry for the hypothesis exactly when its set of required signals is not empty, and
  the confidence of the entry is 0.7 times the matched share of the required signals plus
  0.3 times the matched share of the supporting signals (0 when there are none), rounded
  to 3 decimals. For required signals A and B, supporting signal C and the observed
  signal A, the confidence is the float 0.35.
\<close>

theorem score_hypotheses_confidence:
  "((h, c) \<in> set (score_hypotheses hs signals) \<longleftrightarrow>
      h \<in> set hs \<and> set (required_signals h) \<noteq> {} \<and> c = spec_confidence h signals)
   \<and> score_hypotheses [scenario_hypothesis] {''A''} =
       [(scenario_hypothesis, to_double (35 / 100))]"
proof
  show "(h, c) \<in> set (score_hypotheses hs signals) \<longleftrightarrow>
      h \<in> set hs \<and> set (required_signals h) \<noteq> {} \<and> c = spec_confidence h signals"
    unfolding set_score_hypotheses by auto
  have "set (required_signals scenario_hypothesis) \<noteq> {}"
    by (simp add: scenario_hypothesis_def)
  then show "score_hypotheses [scenario_hypothesis] {''A''} =
       [(scenario_hypothesis, to_double (35 / 100))]"
    by (simp add: score_hypotheses_def score_loop_eq scenario_value)
qed

theorem score_hypotheses_confidence_witness:
  "(scenario_hypothesis, to_double (35 / 100))
     \<in> set (score_hypotheses [scenario_hypothesis] {''A''})"
proof -
  have b: "set (required_signals scenario_hypothesis) \<noteq> {}"
    by (simp add: scenario_hypothesis_def)
  have m: "scenario_hypothesis \<in> set [scenario_hypothesis]" by simp
  from score_hypotheses_confidence
         [of scenario_hypothesis "spec_confidence scenario_hypothesis {''A''}"
             "[scenario_hypothesis]" "{''A''}"] b m
  have "(scenario_hypothesis, spec_confidence scenario_hypothesis {''A''})
      \<in> set (score_hypotheses [scenario_hypothesis] {''A''})"
    by blast
  then show ?thesis by (simp only: scenario_value)
qed

text \<open>
  C7. For every signal set \<open>S\<close>, every signal \<open>x\<close> outside \<open>S\<close> and every hypothesis of
  the library (with required signals, so that it is scored), the confidence that
  \<open>score_hypotheses\<close> gives it under \<open>S \<union> {x}\<close> is at least the one it gives under \<open>S\<close>.
\<close>

theorem score_hypotheses_monotone:
  assumes "h \<in> set hs" "set (required_signals h) \<noteq> {}" "x \<notin> S"
  shows "\<exists>c c'. (h, c) \<in> set (score_hypotheses hs S) \<and>
           (h, c') \<in> set (score_hypotheses hs (S \<union> {x})) \<and> c \<le> c' \<and>
           (\<forall>d. (h, d) \<in> set (score_hypotheses hs S) \<longrightarrow> d = c) \<and>
           (\<forall>d. (h, d) \<in> set (score_hypotheses hs (S \<union> {x})) \<longrightarrow> d = c')"
proof -
  have "spec_confidence h S \<le> spec_confidence h (S \<union> {x})"
    by (rule spec_confidence_mono [OF _ assms(2)]) auto
  then show ?thesis
    using assms(1,2) unfolding set_score_hypotheses
    by (intro exI [of _ "spec_confidence h S"] exI [of _ "spec_confidence h (S \<union> {x})"]) auto
qed

theorem score_hypotheses_monotone_witness:
  "scenario_hypothesis \<in> set [scenario_hypothesis] \<and>
   set (required_signals scenario_hypothesis) \<noteq> {} \<and> ''B'' \<notin> {''A''} \<and>
   (\<exists>c c'. (scenario_hypothesis, c) \<in> set (score_hypotheses [scenario_hypothesis] {''A''}) \<and>
      (scenario_hypothesis, c')
        \<in> set (score_hypotheses [scenario_hypothesis] ({''A''} \<union> {''B''})) \<and> c \<le> c')"
proof -
  have a: "scenario_hypothesis \<in> set [scenario_hypothesis]" by simp
  have b: "set (required_signals scenario_hypothesis) \<noteq> {}"
    by (simp add: scenario_hypothesis_def)
  have c: "''B'' \<notin> {''A''}" by simp
  from score_hypotheses_monotone [OF a b c] a b c show ?thesis by blast
qed

text \<open>
  C9. For every signal set, the empty one included, \<open>score_hypotheses\<close> returns one entry
  for each hypothesis of the library whose set of required signals is not empty: the
  length of the output is the number of those hypotheses, and a hypothesis none of whose
  signals is matched is returned with confidence 0.0, not left out.
\<close>

theorem score_hypotheses_length:
  "length (score_hypotheses hs S) = length (filter (\<lambda>h. set (required_signals h) \<noteq> {}) hs)
   \<and> (\<forall>h \<in> set hs. set (required_signals h) \<noteq> {} \<longrightarrow>
          set (required_signals h) \<inter> S = {} \<longrightarrow> set (supporting_signals h) \<inter> S = {} \<longrightarrow>
          (h, 0) \<in> set (score_hypotheses hs S))"
  unfolding set_score_hypotheses length_score_hypotheses
  by (auto simp: spec_confidence_zero image_iff)

theorem score_hypotheses_length_witness:
  "length (score_hypotheses [scenario_hypothesis] {}) = 1 \<and>
   (scenario_hypothesis, 0) \<in> set (score_hypotheses [scenario_hypothesis] {})"
proof -
  have b: "set (required_signals scenario_hypothesis) \<noteq> {}"
    by (simp add: scenario_hypothesis_def)
  with score_hypotheses_length [of "[scenario_hypothesis]" "{}"] show ?thesis by simp
qed

end
